theory Spec2Isabelle
  imports Main
begin

section \<open>The modular-binomials solver of \<^verbatim>\<open>second_challenge.py\<close>\<close>

text \<open>
  The program works on Python's unbounded integers, modelled as \<^typ>\<open>int\<close>.
  Python's \<^verbatim>\<open>%\<close> and \<^verbatim>\<open>//\<close> round towards minus infinity and give the
  remainder the sign of the divisor, exactly as \<open>mod\<close> and \<open>div\<close> on \<^typ>\<open>int\<close> do;
  \<^verbatim>\<open>math.gcd\<close> is the non-negative \<open>gcd\<close>.  Every operation that can raise
  returns a sum: \<open>Inl\<close> carries the exception, \<open>Inr\<close> the value.  The calls of
  \<^verbatim>\<open>print\<close> write to the console only and do not feed back into the control
  flow; they are left out.  The interpreter's recursion limit is not modelled.
\<close>

subsection \<open>Exceptions and the built-in operations\<close>

datatype py_error =
    NoInverse            \<comment> \<open>\<^verbatim>\<open>Exception('Modular inverse does not exist')\<close>\<close>
  | ZeroDivisionError
  | ValueError

definition bind_err :: "py_error + 'a \<Rightarrow> ('a \<Rightarrow> py_error + 'b) \<Rightarrow> py_error + 'b" where
  "bind_err r f = (case r of Inl e \<Rightarrow> Inl e | Inr v \<Rightarrow> f v)"

definition py_mod :: "int \<Rightarrow> int \<Rightarrow> py_error + int" where
  "py_mod a b = (if b = 0 then Inl ZeroDivisionError else Inr (a mod b))"

definition py_floordiv :: "int \<Rightarrow> int \<Rightarrow> py_error + int" where
  "py_floordiv a b = (if b = 0 then Inl ZeroDivisionError else Inr (a div b))"

subsection \<open>\<^verbatim>\<open>extended_gcd\<close> (lines 22 to 28)\<close>

function extended_gcd :: "int \<Rightarrow> int \<Rightarrow> int \<times> int \<times> int" where
  "extended_gcd a b =
     (if a = 0 then (b, 0, 1)
      else (case extended_gcd (b mod a) a of
              (g, x, y) \<Rightarrow> (g, y - (b div a) * x, x)))"
  by pat_completeness auto
termination
  by (relation "measure (\<lambda>(a, b). nat \<bar>a\<bar>)") (auto simp add: abs_mod_less)

text \<open>
  The same recursion with an explicit bound on the number of calls: \<open>None\<close> when the
  bound is used up before the base case is reached.
\<close>

primrec extended_gcd_fuel :: "nat \<Rightarrow> int \<Rightarrow> int \<Rightarrow> (int \<times> int \<times> int) option" where
  "extended_gcd_fuel 0 a b = None"
| "extended_gcd_fuel (Suc n) a b =
     (if a = 0 then Some (b, 0, 1)
      else (case extended_gcd_fuel n (b mod a) a of
              None \<Rightarrow> None
            | Some (g, x, y) \<Rightarrow> Some (g, y - (b div a) * x, x)))"

subsection \<open>\<^verbatim>\<open>mod_inverse\<close> (lines 30 to 36)\<close>

definition mod_inverse :: "int \<Rightarrow> int \<Rightarrow> py_error + int" where
  "mod_inverse a m =
     (case extended_gcd a m of
        (g, x, y) \<Rightarrow> if g \<noteq> 1 then Inl NoInverse else py_mod x m)"

subsection \<open>The built-in three-argument \<^verbatim>\<open>pow\<close>\<close>

text \<open>
  \<^verbatim>\<open>pow(b, e, m)\<close> raises \<^verbatim>\<open>ValueError\<close> for \<open>m = 0\<close>.  For \<open>e \<ge> 0\<close> it is
  \<open>b ^ e mod m\<close>, with the sign of \<open>m\<close>.  For \<open>e < 0\<close> the base is first replaced by
  its inverse modulo \<open>\<bar>m\<bar>\<close>, and \<^verbatim>\<open>ValueError\<close> is raised when there is none.
\<close>

definition py_invmod :: "int \<Rightarrow> int \<Rightarrow> int" where
  "py_invmod b n = (case extended_gcd (b mod n) n of (g, x, y) \<Rightarrow> x mod n)"

definition py_pow :: "int \<Rightarrow> int \<Rightarrow> int \<Rightarrow> py_error + int" where
  "py_pow b e m =
     (if m = 0 then Inl ValueError
      else if 0 \<le> e then Inr (b ^ nat e mod m)
      else if gcd b m = 1 then Inr (py_invmod b \<bar>m\<bar> ^ nat (- e) mod m)
      else Inl ValueError)"

subsection \<open>\<^verbatim>\<open>solve_for_primes\<close> (lines 38 to 153)\<close>

text \<open>
  The function is cut at its comments into the pieces below; \<open>solve_for_primes\<close>
  puts them together in the order of the source.  The result is
  \<open>Inr (Some (p, q))\<close> for a returned pair, \<open>Inr None\<close> for \<^verbatim>\<open>(None, None)\<close> and
  \<open>Inl e\<close> for an exception that leaves the function.
\<close>

text \<open>Lines 58 to 63: any exception of the two inversions is caught.\<close>

definition primary_inverses :: "int \<Rightarrow> (int \<times> int) option" where
  "primary_inverses N =
     (case bind_err (mod_inverse 2 N) (\<lambda>a1_inv.
           bind_err (mod_inverse 5 N) (\<lambda>a2_inv. Inr (a1_inv, a2_inv))) of
        Inl e \<Rightarrow> None
      | Inr r \<Rightarrow> Some r)"

text \<open>Lines 69 to 87: the candidate, with the two powers that line 135 and 136 reuse.\<close>

definition primary_candidate ::
  "int \<Rightarrow> int \<Rightarrow> int \<Rightarrow> int \<Rightarrow> int \<Rightarrow> int \<Rightarrow> int \<Rightarrow> py_error + (int \<times> int \<times> int)" where
  "primary_candidate a1_inv a2_inv N e1 e2 c1 c2 =
     bind_err (py_mod (e2 * e1) (N - 1)) (\<lambda>x2.
     bind_err (py_pow a2_inv x2 N) (\<lambda>a2_neg_power.
     bind_err (py_mod (e1 * e2) (N - 1)) (\<lambda>x1.
     bind_err (py_pow a1_inv x1 N) (\<lambda>a1_neg_power.
     bind_err (py_pow c2 e1 N) (\<lambda>c2_power.
     bind_err (py_pow c1 e2 N) (\<lambda>c1_power.
     bind_err (py_mod (a2_neg_power * c2_power) N) (\<lambda>term1.
     bind_err (py_mod (a1_neg_power * c1_power) N) (\<lambda>term2.
     bind_err (py_mod (term1 - term2) N) (\<lambda>d.
     Inr (gcd d N, c1_power, c2_power))))))))))"

text \<open>
  Lines 90 to 112.  The \<^verbatim>\<open>and\<close> of line 90 evaluates \<^verbatim>\<open>N % q_candidate\<close> only
  for \<open>q_candidate > 1\<close>.  The two powers of the cross-check are computed (and may
  raise) but are only printed.
\<close>

definition primary_accept :: "int \<Rightarrow> int \<Rightarrow> int \<Rightarrow> int \<Rightarrow> py_error + (int \<times> int) option" where
  "primary_accept N e1 e2 q_candidate =
     (if q_candidate > 1 \<and> N mod q_candidate = 0 then
        (let p_candidate = N div q_candidate in
         if p_candidate * q_candidate = N then
           bind_err (py_pow (2 * p_candidate + 3 * q_candidate) e1 N) (\<lambda>test_c1.
           bind_err (py_pow (5 * p_candidate + 7 * q_candidate) e2 N) (\<lambda>test_c2.
           Inr (Some (p_candidate, q_candidate))))
         else Inr None)
      else Inr None)"

text \<open>Lines 115 to 123.\<close>

definition swap_accept :: "int \<Rightarrow> int \<Rightarrow> py_error + (int \<times> int) option" where
  "swap_accept N q_candidate =
     (let p_candidate = q_candidate in
      bind_err (py_floordiv N p_candidate) (\<lambda>q_candidate'.
      if p_candidate * q_candidate' = N then Inr (Some (p_candidate, q_candidate'))
      else Inr None))"

text \<open>Lines 128 to 153: every exception inside the \<^verbatim>\<open>try\<close> is caught.\<close>

definition alternate_body :: "int \<Rightarrow> int \<Rightarrow> int \<Rightarrow> int \<Rightarrow> int \<Rightarrow> py_error + (int \<times> int) option" where
  "alternate_body N e1 e2 c1_power c2_power =
     bind_err (mod_inverse 3 N) (\<lambda>b1_inv.
     bind_err (mod_inverse 7 N) (\<lambda>b2_inv.
     bind_err (py_mod (e2 * e1) (N - 1)) (\<lambda>x2.
     bind_err (py_pow b2_inv x2 N) (\<lambda>b2_neg_power.
     bind_err (py_mod (e1 * e2) (N - 1)) (\<lambda>x1.
     bind_err (py_pow b1_inv x1 N) (\<lambda>b1_neg_power.
     bind_err (py_mod (b2_neg_power * c2_power) N) (\<lambda>term1.
     bind_err (py_mod (b1_neg_power * c1_power) N) (\<lambda>term2.
     bind_err (py_mod (term1 - term2) N) (\<lambda>d.
     (let p_candidate = gcd d N in
      if p_candidate > 1 \<and> N mod p_candidate = 0 then
        (let q_candidate = N div p_candidate in
         if p_candidate * q_candidate = N then Inr (Some (p_candidate, q_candidate))
         else Inr None)
      else Inr None))))))))))"

definition alternate_stage :: "int \<Rightarrow> int \<Rightarrow> int \<Rightarrow> int \<Rightarrow> int \<Rightarrow> (int \<times> int) option" where
  "alternate_stage N e1 e2 c1_power c2_power =
     (case alternate_body N e1 e2 c1_power c2_power of
        Inl e \<Rightarrow> None
      | Inr r \<Rightarrow> r)"

definition solve_for_primes ::
  "int \<Rightarrow> int \<Rightarrow> int \<Rightarrow> int \<Rightarrow> int \<Rightarrow> py_error + (int \<times> int) option" where
  "solve_for_primes N e1 e2 c1 c2 =
     (case primary_inverses N of
        None \<Rightarrow> Inr None
      | Some (a1_inv, a2_inv) \<Rightarrow>
          bind_err (primary_candidate a1_inv a2_inv N e1 e2 c1 c2) (\<lambda>(q_candidate, c1_power, c2_power).
          bind_err (primary_accept N e1 e2 q_candidate) (\<lambda>r1.
          case r1 of
            Some pq \<Rightarrow> Inr (Some pq)
          | None \<Rightarrow>
              bind_err (swap_accept N q_candidate) (\<lambda>r2.
              case r2 of
                Some pq \<Rightarrow> Inr (Some pq)
              | None \<Rightarrow> Inr (alternate_stage N e1 e2 c1_power c2_power)))))"

subsection \<open>Primality, for the statements about well-formed moduli\<close>

text \<open>
  The program never tests primality; the predicate is needed only to say what a
  modulus built from two primes is.  Trial division keeps it executable.
\<close>

definition is_prime :: "int \<Rightarrow> bool" where
  "is_prime p \<longleftrightarrow> 1 < p \<and> (\<forall>d \<in> set [2..p - 1]. \<not> d dvd p)"

section \<open>The extended Euclidean algorithm\<close>

declare extended_gcd.simps [simp del]

lemma extended_gcd_zero: "extended_gcd 0 b = (b, 0, 1)"
  by (simp add: extended_gcd.simps)

lemma extended_gcd_step:
  "a \<noteq> 0 \<Longrightarrow> extended_gcd a b =
     (case extended_gcd (b mod a) a of (g, x, y) \<Rightarrow> (g, y - (b div a) * x, x))"
  by (subst extended_gcd.simps) simp

text \<open>The B\'ezout identity holds for every pair of integers, whatever their sign.\<close>

lemma extended_gcd_bezout: "extended_gcd a b = (g, x, y) \<Longrightarrow> a * x + b * y = g"
proof (induction a b arbitrary: g x y rule: extended_gcd.induct)
  case (1 a b)
  show ?case
  proof (cases "a = 0")
    case True
    with "1.prems" show ?thesis by (simp add: extended_gcd_zero)
  next
    case False
    obtain g' x' y' where rec: "extended_gcd (b mod a) a = (g', x', y')"
      by (cases "extended_gcd (b mod a) a") auto
    from "1.IH" [OF False rec] have ih: "(b mod a) * x' + a * y' = g'" .
    from "1.prems" False rec have res: "g = g'" "x = y' - (b div a) * x'" "y = x'"
      by (auto simp add: extended_gcd_step)
    have "a * (y' - (b div a) * x') + b * x' = (b - a * (b div a)) * x' + a * y'"
      by (simp add: algebra_simps)
    also have "b - a * (b div a) = b mod a"
      by (simp add: minus_mult_div_eq_mod)
    finally show ?thesis using ih res by simp
  qed
qed

text \<open>On non-negative arguments the first component is the greatest common divisor.\<close>

lemma extended_gcd_fst: "0 \<le> a \<Longrightarrow> 0 \<le> b \<Longrightarrow> fst (extended_gcd a b) = gcd a b"
proof (induction a b rule: extended_gcd.induct)
  case (1 a b)
  show ?case
  proof (cases "a = 0")
    case True
    with "1.prems" show ?thesis by (simp add: extended_gcd_zero)
  next
    case False
    with "1.prems" have pos: "0 < a" by simp
    then have "0 \<le> b mod a" by simp
    with "1.IH" [OF False] "1.prems" have "fst (extended_gcd (b mod a) a) = gcd (b mod a) a"
      by simp
    moreover have "gcd (b mod a) a = gcd a b"
      using gcd_red_int [of b a] by (simp add: gcd.commute)
    ultimately show ?thesis using False
      by (cases "extended_gcd (b mod a) a") (simp add: extended_gcd_step)
  qed
qed

text \<open>
  C6.  For all non-negative integers \<open>a\<close> and \<open>b\<close>, \<^verbatim>\<open>extended_gcd(a, b)\<close> returns a
  triple \<open>(g, x, y)\<close> with \<open>g = gcd a b\<close> and \<open>a * x + b * y = g\<close>; in the base case
  \<open>a = 0\<close> it returns \<open>(b, 0, 1)\<close>.
\<close>

theorem extended_gcd_correct:
  "0 \<le> a \<Longrightarrow> 0 \<le> b \<Longrightarrow>
     (case extended_gcd a b of (g, x, y) \<Rightarrow> g = gcd a b \<and> a * x + b * y = g)
     \<and> extended_gcd 0 b = (b, 0, 1)"
  using extended_gcd_fst [of a b] extended_gcd_bezout [of a b]
  by (auto simp add: extended_gcd_zero split: prod.splits)

theorem extended_gcd_correct_witness:
  "(0::int) \<le> 240 \<and> (0::int) \<le> 46 \<and> extended_gcd 240 46 = (2, -9, 47)
     \<and> (2::int) = gcd 240 46 \<and> (240::int) * (-9) + 46 * 47 = 2
     \<and> extended_gcd 0 46 = (46, 0, 1)"
  using extended_gcd_correct [of 240 46] by (simp add: extended_gcd.simps)

section \<open>The modular inverse\<close>

lemma mod_inverse_nonneg:
  assumes "0 \<le> a" and "1 < m"
  shows "mod_inverse a m =
    (if gcd a m = 1 then Inr (fst (snd (extended_gcd a m)) mod m) else Inl NoInverse)"
proof -
  obtain g x y where eg: "extended_gcd a m = (g, x, y)"
    by (cases "extended_gcd a m") auto
  with extended_gcd_fst [of a m] assms have "g = gcd a m" by simp
  with eg assms show ?thesis by (simp add: mod_inverse_def py_mod_def)
qed

lemma extended_gcd_inverse:
  assumes "0 \<le> a" and "1 < m" and "gcd a m = 1"
  shows "(a * (fst (snd (extended_gcd a m)) mod m)) mod m = 1"
proof -
  obtain g x y where eg: "extended_gcd a m = (g, x, y)"
    by (cases "extended_gcd a m") auto
  with extended_gcd_fst [of a m] assms have g: "g = 1" by simp
  from extended_gcd_bezout [OF eg] g have "a * x + m * y = 1" by simp
  then have "a * x = 1 - m * y" by simp
  then have "(a * x) mod m = (1 - m * y) mod m" by simp
  also have "\<dots> = 1 mod m" by (simp add: mod_diff_right_eq [symmetric] del: mod_diff_right_eq)
  also have "\<dots> = 1" using assms by simp
  finally have "(a * x) mod m = 1" .
  then have "(a * (x mod m)) mod m = 1" by (simp add: mod_mult_right_eq)
  with eg show ?thesis by simp
qed

lemma mod_inverse_Inr:
  assumes "0 \<le> a" and "1 < m" and "mod_inverse a m = Inr x"
  shows "gcd a m = 1 \<and> 0 \<le> x \<and> x < m \<and> (a * x) mod m = 1"
proof -
  from assms have c: "gcd a m = 1" and x: "x = fst (snd (extended_gcd a m)) mod m"
    by (auto simp add: mod_inverse_nonneg split: if_splits)
  from extended_gcd_inverse [OF assms(1,2) c] x assms(2) c show ?thesis by simp
qed

text \<open>
  The inverse that the built-in \<^verbatim>\<open>pow\<close> uses for a negative exponent is one, as its
  model \<open>py_invmod\<close> should be.
\<close>

lemma py_invmod_inverse:
  assumes "1 < n" and "gcd b n = 1"
  shows "(b * py_invmod b n) mod n = 1"
proof -
  from assms(1) have r: "0 \<le> b mod n" by simp
  from assms(2) have g: "gcd (b mod n) n = 1"
    using gcd_red_int [of b n] by (simp add: gcd.commute)
  from extended_gcd_inverse [OF r assms(1) g]
  have "((b mod n) * py_invmod b n) mod n = 1"
    by (cases "extended_gcd (b mod n) n") (simp add: py_invmod_def)
  then show ?thesis by (simp add: mod_mult_left_eq)
qed

text \<open>
  C5, as stated: for every \<open>m > 1\<close>, \<^verbatim>\<open>mod_inverse(a, m)\<close> raises the no-inverse
  failure if and only if \<open>gcd a m \<noteq> 1\<close>, and for every \<open>a\<close> coprime to \<open>m\<close> it returns
  an inverse in \<open>[0, m)\<close>.  This fails for a negative \<open>a\<close>: the recursion of
  \<^verbatim>\<open>extended_gcd\<close> then ends with a negative first component, here \<open>- 1\<close>, which the
  test \<^verbatim>\<open>gcd != 1\<close> of line 33 rejects although \<open>- 1\<close> and \<open>5\<close> are coprime.
\<close>

theorem mod_inverse_negative_counterexample:
  "gcd (- 1 :: int) 5 = 1 \<and> mod_inverse (- 1) 5 = Inl NoInverse"
  by (simp add: mod_inverse_def extended_gcd.simps)

text \<open>
  C5, amended: for every \<open>m > 1\<close> and every \<open>a \<ge> 0\<close>, \<^verbatim>\<open>mod_inverse(a, m)\<close> raises
  the no-inverse failure if and only if \<open>gcd a m \<noteq> 1\<close>; and when \<open>a\<close> is coprime to
  \<open>m\<close> it returns an \<open>x\<close> with \<open>0 \<le> x < m\<close> and \<open>(a * x) mod m = 1\<close>.
\<close>

theorem mod_inverse_correct:
  "1 < m \<Longrightarrow> 0 \<le> a \<Longrightarrow>
     (mod_inverse a m = Inl NoInverse \<longleftrightarrow> gcd a m \<noteq> 1)
     \<and> (gcd a m = 1 \<longrightarrow>
          (\<exists>x. mod_inverse a m = Inr x \<and> 0 \<le> x \<and> x < m \<and> (a * x) mod m = 1))"
  using extended_gcd_inverse [of a m] by (simp add: mod_inverse_nonneg)

theorem mod_inverse_correct_witness:
  "(1::int) < 7 \<and> (0::int) \<le> 3 \<and> gcd (3::int) 7 = 1 \<and> mod_inverse 3 7 = Inr 5
     \<and> (3 * 5) mod 7 = (1::int) \<and> mod_inverse 14 7 = Inl NoInverse \<and> gcd (14::int) 7 \<noteq> 1"
  using mod_inverse_correct [of 7 3] mod_inverse_correct [of 7 14]
  by (simp add: mod_inverse_def py_mod_def extended_gcd.simps)

section \<open>The stages of the solver\<close>

lemma bind_err_Inr [simp]: "bind_err (Inr v) f = f v"
  by (simp add: bind_err_def)

lemma bind_err_Inl [simp]: "bind_err (Inl e) f = Inl e"
  by (simp add: bind_err_def)

lemma bind_err_eq_Inr: "bind_err r f = Inr y \<longleftrightarrow> (\<exists>v. r = Inr v \<and> f v = Inr y)"
  by (cases r) simp_all

lemma py_mod_eq_Inr: "py_mod a b = Inr v \<longleftrightarrow> b \<noteq> 0 \<and> v = a mod b"
  by (auto simp add: py_mod_def)

lemma py_floordiv_eq_Inr: "py_floordiv a b = Inr v \<longleftrightarrow> b \<noteq> 0 \<and> v = a div b"
  by (auto simp add: py_floordiv_def)

lemma py_pow_nonneg: "m \<noteq> 0 \<Longrightarrow> 0 \<le> e \<Longrightarrow> py_pow b e m = Inr (b ^ nat e mod m)"
  by (simp add: py_pow_def)

lemma py_pow_coprime: "m \<noteq> 0 \<Longrightarrow> gcd b m = 1 \<Longrightarrow> \<exists>v. py_pow b e m = Inr v"
  by (simp add: py_pow_def)

text \<open>
  A candidate exists only for a modulus other than \<open>0\<close> and \<open>1\<close>, and it is a greatest
  common divisor with \<open>N\<close>: positive, and a divisor of \<open>N\<close>.
\<close>

lemma primary_candidate_Inr:
  assumes "primary_candidate i1 i2 N e1 e2 c1 c2 = Inr (cand, c1p, c2p)"
  shows "N \<noteq> 0 \<and> N \<noteq> 1 \<and> (\<exists>d. cand = gcd d N)"
  using assms unfolding primary_candidate_def
  by (auto simp add: bind_err_eq_Inr py_mod_eq_Inr)

lemma gcd_candidate: "N \<noteq> 0 \<Longrightarrow> 0 < gcd d N \<and> gcd d N dvd N \<and> (gcd d N) * (N div gcd d N) = N"
  for N :: int
  by simp

lemma primary_accept_Some:
  "primary_accept N e1 e2 cand = Inr (Some (p, q)) \<Longrightarrow>
     q = cand \<and> p = N div cand \<and> p * q = N \<and> 1 < cand \<and> N mod cand = 0"
  unfolding primary_accept_def
  by (auto simp add: Let_def bind_err_eq_Inr split: if_splits)

lemma swap_accept_Some:
  "swap_accept N cand = Inr (Some (p, q)) \<Longrightarrow> p = cand \<and> q = N div cand \<and> p * q = N"
  unfolding swap_accept_def
  by (auto simp add: Let_def bind_err_eq_Inr py_floordiv_eq_Inr split: if_splits)

lemma alternate_stage_Some:
  "alternate_stage N e1 e2 c1p c2p = Some (p, q) \<Longrightarrow> p * q = N \<and> 1 < p \<and> N mod p = 0"
  unfolding alternate_stage_def alternate_body_def
  by (auto simp add: Let_def bind_err_eq_Inr split: sum.splits if_splits)

lemma primary_inverses_Some:
  assumes "1 < N" and "primary_inverses N = Some (i1, i2)"
  shows "mod_inverse 2 N = Inr i1 \<and> mod_inverse 5 N = Inr i2
     \<and> gcd 2 N = 1 \<and> gcd 5 N = 1 \<and> (2 * i1) mod N = 1 \<and> (5 * i2) mod N = 1"
proof -
  from assms(2) have m: "mod_inverse 2 N = Inr i1" "mod_inverse 5 N = Inr i2"
    unfolding primary_inverses_def
    by (auto simp add: bind_err_eq_Inr split: sum.splits)
  from mod_inverse_Inr [OF _ assms(1) m(1)] mod_inverse_Inr [OF _ assms(1) m(2)] m
  show ?thesis by simp
qed

lemma primary_inverses_None:
  "primary_inverses N = None \<longleftrightarrow> (\<exists>e. mod_inverse 2 N = Inl e) \<or> (\<exists>e. mod_inverse 5 N = Inl e)"
  unfolding primary_inverses_def
  by (cases "mod_inverse 2 N"; cases "mod_inverse 5 N") simp_all

text \<open>Within the contract (\<open>N > 1\<close>, exponents not negative) no step of lines 69 to 87 raises.\<close>

lemma py_mod_nonzero: "b \<noteq> 0 \<Longrightarrow> py_mod a b = Inr (a mod b)"
  by (simp add: py_mod_def)

lemma primary_candidate_value:
  assumes "1 < N" and "0 \<le> e1" and "0 \<le> e2"
  shows "primary_candidate i1 i2 N e1 e2 c1 c2 =
    Inr (gcd ((((i2 ^ nat ((e2 * e1) mod (N - 1)) mod N) * (c2 ^ nat e1 mod N)) mod N
              - ((i1 ^ nat ((e1 * e2) mod (N - 1)) mod N) * (c1 ^ nat e2 mod N)) mod N) mod N) N,
         c1 ^ nat e2 mod N, c2 ^ nat e1 mod N)"
proof -
  from assms(1) have n: "N \<noteq> 0" and n1: "N - 1 \<noteq> 0" and pos: "0 < N - 1" by simp_all
  from pos have x: "0 \<le> (e2 * e1) mod (N - 1)" "0 \<le> (e1 * e2) mod (N - 1)"
    by (rule pos_mod_sign)+
  note steps = py_mod_nonzero [OF n1] py_mod_nonzero [OF n]
    py_pow_nonneg [OF n x(1)] py_pow_nonneg [OF n x(2)]
    py_pow_nonneg [OF n assms(2)] py_pow_nonneg [OF n assms(3)]
  show ?thesis
    unfolding primary_candidate_def
    by (simp only: steps bind_err_Inr)
qed

lemma primary_accept_nontrivial:
  assumes "N \<noteq> 0" and "0 \<le> e1" and "0 \<le> e2" and "1 < cand" and "cand dvd N"
  shows "primary_accept N e1 e2 cand = Inr (Some (N div cand, cand))"
  using assms unfolding primary_accept_def
  by (simp add: Let_def py_pow_nonneg)

lemma primary_accept_unit: "primary_accept N e1 e2 1 = Inr None"
  by (simp add: primary_accept_def)

lemma swap_accept_unit: "swap_accept N 1 = Inr (Some (1, N))"
  by (simp add: swap_accept_def py_floordiv_def)

text \<open>
  Once a candidate exists, the function returns in its first or in its second stage:
  the candidate divides \<open>N\<close>, so the test of line 118 cannot fail, and lines 125 to 153
  are never reached.
\<close>

lemma solve_after_candidate:
  assumes inv: "primary_inverses N = Some (i1, i2)"
    and cand: "primary_candidate i1 i2 N e1 e2 c1 c2 = Inr (cand, c1p, c2p)"
    and e: "0 \<le> e1" "0 \<le> e2"
  shows "solve_for_primes N e1 e2 c1 c2 =
    Inr (Some (if 1 < cand then (N div cand, cand) else (1, N)))"
proof -
  from primary_candidate_Inr [OF cand] obtain d where n: "N \<noteq> 0" and d: "cand = gcd d N"
    by blast
  from gcd_candidate [OF n, of d] d have c: "0 < cand" "cand dvd N" by simp_all
  show ?thesis
  proof (cases "1 < cand")
    case True
    from primary_accept_nontrivial [OF n e True c(2)] inv cand True show ?thesis
      by (simp add: solve_for_primes_def)
  next
    case False
    with c have "cand = 1" by simp
    with inv cand show ?thesis
      by (simp add: solve_for_primes_def primary_accept_unit swap_accept_unit)
  qed
qed

section \<open>What \<^verbatim>\<open>solve_for_primes\<close> returns\<close>

text \<open>
  C2.  For every input with \<open>N > 1\<close>, whenever \<^verbatim>\<open>solve_for_primes\<close> returns a pair
  \<open>(p, q)\<close> other than \<^verbatim>\<open>(None, None)\<close>, from whichever of the three stages, then
  \<open>p * q = N\<close>: lines 94, 118 and 143 test the product before each \<^verbatim>\<open>return\<close>.
\<close>

theorem solve_for_primes_product:
  "1 < N \<Longrightarrow> solve_for_primes N e1 e2 c1 c2 = Inr (Some (p, q)) \<Longrightarrow> p * q = N"
  unfolding solve_for_primes_def
  by (auto simp add: bind_err_eq_Inr split: option.splits prod.splits
      dest: primary_accept_Some swap_accept_Some alternate_stage_Some)

theorem solve_for_primes_product_witness:
  "(1::int) < 143 \<and> solve_for_primes 143 1 1 61 3 = Inr (Some (11, 13)) \<and> (11::int) * 13 = 143"
proof -
  have r: "solve_for_primes 143 1 1 61 3 = Inr (Some (11, 13))" by code_simp
  from solve_for_primes_product [OF _ r] r show ?thesis by simp
qed

text \<open>
  C3.  The claim is that a candidate is accepted only when \<open>1 < candidate < N\<close>, so that
  neither component of a returned pair is \<open>1\<close> or \<open>N\<close>.  Line 90 tests
  \<open>q_candidate > 1\<close> but not \<open>q_candidate < N\<close>, and the swap of lines 115 to 123 tests
  the product only.  On the modulus \<open>13 * 11\<close> with \<open>e1 = 3\<close>, \<open>e2 = 4\<close> and the two
  ciphertexts built by the defining equations the function returns \<open>(1, 143)\<close>.
\<close>

theorem trivial_factor_accepted:
  "solve_for_primes (13 * 11) 3 4
     ((2 * 13 + 3 * 11) ^ 3 mod (13 * 11)) ((5 * 13 + 7 * 11) ^ 4 mod (13 * 11))
     = Inr (Some (1, 13 * 11))"
  by code_simp

text \<open>
  C4, as stated: when an inversion of the primary stage fails, the solver goes on to
  the next strategy and in particular still runs the stage on the coefficients
  \<open>3\<close> and \<open>7\<close>.  For \<open>N = 22 = 11 * 2\<close> with \<open>e1 = e2 = 1\<close>, \<open>c1 = 6\<close>, \<open>c2 = 3\<close> that
  stage, run on the powers of line 75 and 78, finds \<open>(11, 2)\<close>; the function returns
  \<^verbatim>\<open>(None, None)\<close> from line 63 without running it.
\<close>

theorem primary_failure_counterexample:
  "primary_inverses 22 = None
     \<and> alternate_stage 22 1 1 (6 ^ 1 mod 22) (3 ^ 1 mod 22) = Some (11, 2)
     \<and> solve_for_primes 22 1 1 6 3 = Inr None"
  by code_simp

text \<open>
  C4, amended: when \<^verbatim>\<open>mod_inverse\<close> raises for \<open>2\<close> or for \<open>5\<close> in the primary stage,
  the handler of lines 61 to 63 catches the exception and \<^verbatim>\<open>solve_for_primes\<close>
  returns \<^verbatim>\<open>(None, None)\<close> at once: no later stage is run and no exception leaves
  the function.
\<close>

theorem primary_inverse_failure_is_final:
  assumes "mod_inverse 2 N = Inl e \<or> mod_inverse 5 N = Inl e"
  shows "solve_for_primes N e1 e2 c1 c2 = Inr None"
proof -
  from assms have "primary_inverses N = None"
    by (auto simp add: primary_inverses_None)
  then show ?thesis by (simp add: solve_for_primes_def)
qed

theorem primary_inverse_failure_is_final_witness:
  "mod_inverse 2 22 = Inl NoInverse \<and> solve_for_primes 22 1 1 6 3 = Inr None"
proof -
  have m: "mod_inverse 2 22 = Inl NoInverse" by code_simp
  from primary_inverse_failure_is_final [OF disjI1 [OF m]] m show ?thesis by simp
qed



text \<open>
  C8.  For every \<open>N > 1\<close> for which the inverses of \<open>2\<close> and \<open>5\<close> modulo \<open>N\<close> exist, if
  the candidate of line 87 is \<open>1\<close> or \<open>N\<close>, then \<^verbatim>\<open>solve_for_primes\<close> returns the pair
  \<open>(1, N)\<close>: from lines 90 to 112 when the candidate is \<open>N\<close>, from the swap of lines 115
  to 123 when it is \<open>1\<close>.  It does not return \<^verbatim>\<open>(None, None)\<close>.
\<close>

theorem trivial_pair_returned:
  assumes "1 < N"
    and "primary_inverses N = Some (a1_inv, a2_inv)"
    and "primary_candidate a1_inv a2_inv N e1 e2 c1 c2 = Inr (candidate, c1_power, c2_power)"
    and "candidate = 1 \<or> candidate = N"
  shows "solve_for_primes N e1 e2 c1 c2 = Inr (Some (1, N))"
proof (cases "candidate = 1")
  case True
  with assms(2,3) show ?thesis
    by (simp add: solve_for_primes_def primary_accept_unit swap_accept_unit)
next
  case False
  with assms(4) have c: "candidate = N" by simp
  from primary_inverses_Some [OF assms(1,2)] have g: "gcd 2 N = 1" "gcd 5 N = 1" by simp_all
  have "gcd (2 + 3 * N) N = gcd 2 N" "gcd (5 + 7 * N) N = gcd 5 N"
    by (metis gcd.commute gcd_add_mult add.commute)+
  with g have g': "gcd (2 + 3 * N) N = 1" "gcd (5 + 7 * N) N = 1" by simp_all
  from assms(1) have n: "N \<noteq> 0" by simp
  from py_pow_coprime [OF n g'(1)] obtain t1 where t1: "py_pow (2 + 3 * N) e1 N = Inr t1" by blast
  from py_pow_coprime [OF n g'(2)] obtain t2 where t2: "py_pow (5 + 7 * N) e2 N = Inr t2" by blast
  from assms(1) t1 t2 have "primary_accept N e1 e2 N = Inr (Some (1, N))"
    by (simp add: primary_accept_def)
  with assms(2,3) c show ?thesis
    by (simp add: solve_for_primes_def)
qed

theorem trivial_pair_returned_witness:
  "(1::int) < 143 \<and> primary_inverses 143 = Some (72, 86)
     \<and> primary_candidate 72 86 143 5 1 120 3 = Inr (143, 120, 100)
     \<and> solve_for_primes 143 5 1 120 3 = Inr (Some (1, 143))
     \<and> primary_candidate 72 86 143 11 13 94 16 = Inr (1, 29, 126)
     \<and> solve_for_primes 143 11 13 94 16 = Inr (Some (1, 143))"
proof -
  have i: "primary_inverses 143 = Some (72, 86)" by code_simp
  have c: "primary_candidate 72 86 143 5 1 120 3 = Inr (143, 120, 100)" by code_simp
  have c': "primary_candidate 72 86 143 11 13 94 16 = Inr (1, 29, 126)" by code_simp
  have "solve_for_primes 143 5 1 120 3 = Inr (Some (1, 143))"
    by (rule trivial_pair_returned [OF _ i c]) simp_all
  moreover have "solve_for_primes 143 11 13 94 16 = Inr (Some (1, 143))"
    by (rule trivial_pair_returned [OF _ i c']) simp_all
  ultimately show ?thesis using i c c' by simp
qed

text \<open>
  C9.  For every \<open>N > 1\<close> and exponents that are not negative, no exception leaves
  \<^verbatim>\<open>solve_for_primes\<close>: the result is \<^verbatim>\<open>(None, None)\<close> or a pair of positive
  integers.  In the model every division and every \<^verbatim>\<open>pow\<close> that could raise is a
  branch to \<open>Inl\<close>, and both \<^verbatim>\<open>try\<close> blocks turn \<open>Inl\<close> into \<^verbatim>\<open>(None, None)\<close>, so
  a result \<open>Inr\<close> says that nothing was raised outside them.  The divisors are \<open>N - 1\<close>,
  \<open>N\<close> and the candidate, each at least \<open>1\<close>.  The signs of \<open>c1\<close> and \<open>c2\<close> do not
  matter.
\<close>

theorem solve_for_primes_no_exception:
  assumes "1 < N" and "0 \<le> e1" and "0 \<le> e2"
  shows "(solve_for_primes N e1 e2 c1 c2 = Inr None
       \<or> (\<exists>p q. solve_for_primes N e1 e2 c1 c2 = Inr (Some (p, q)) \<and> 0 < p \<and> 0 < q))
     \<and> 1 \<le> N - 1
     \<and> (\<forall>a1_inv a2_inv candidate c1_power c2_power.
          primary_candidate a1_inv a2_inv N e1 e2 c1 c2 = Inr (candidate, c1_power, c2_power)
          \<longrightarrow> 1 \<le> candidate)"
proof (intro conjI allI impI)
  from assms(1) have n: "N \<noteq> 0" by simp
  show "1 \<le> N - 1" using assms(1) by simp
  show "1 \<le> candidate"
    if "primary_candidate a1_inv a2_inv N e1 e2 c1 c2 = Inr (candidate, c1_power, c2_power)"
    for a1_inv a2_inv candidate c1_power c2_power
  proof -
    from primary_candidate_Inr [OF that] obtain d where d: "candidate = gcd d N" by blast
    from n have "0 < gcd d N" by simp
    then have "1 \<le> gcd d N" by linarith
    with d show ?thesis by (simp only:)
  qed
  show "solve_for_primes N e1 e2 c1 c2 = Inr None
     \<or> (\<exists>p q. solve_for_primes N e1 e2 c1 c2 = Inr (Some (p, q)) \<and> 0 < p \<and> 0 < q)"
  proof (cases "primary_inverses N")
    case None
    then show ?thesis by (simp add: solve_for_primes_def)
  next
    case (Some r)
    obtain i1 i2 where r: "r = (i1, i2)" by (cases r) auto
    from primary_candidate_value [OF assms] obtain cand c1p c2p
      where cand: "primary_candidate i1 i2 N e1 e2 c1 c2 = Inr (cand, c1p, c2p)" by blast
    from primary_candidate_Inr [OF cand] obtain d where d: "cand = gcd d N" by blast
    from gcd_candidate [OF n, of d] d have c: "0 < cand" "cand dvd N" by simp_all
    from c assms(1) have "0 < N div cand"
      by (simp add: pos_imp_zdiv_pos_iff zdvd_imp_le)
    with solve_after_candidate [OF Some [unfolded r] cand assms(2,3)] c assms(1)
    show ?thesis by simp
  qed
qed

theorem solve_for_primes_no_exception_witness:
  "(1::int) < 22 \<and> (1::int) < 143 \<and> (0::int) \<le> 1
     \<and> solve_for_primes 22 1 1 6 3 = Inr None
     \<and> solve_for_primes 143 1 1 61 3 = Inr (Some (11, 13)) \<and> (0::int) < 11 \<and> (0::int) < 13
     \<and> (1::int) \<le> 143 - 1
     \<and> primary_candidate 72 86 143 1 1 61 3 = Inr (13, 61, 3) \<and> (1::int) \<le> 13"
proof -
  have "solve_for_primes 22 1 1 6 3 = Inr None"
    and "solve_for_primes 143 1 1 61 3 = Inr (Some (11, 13))"
    and "primary_candidate 72 86 143 1 1 61 3 = Inr (13, 61, 3)" by code_simp+
  with solve_for_primes_no_exception [of 22 1 1 6 3] solve_for_primes_no_exception [of 143 1 1 61 3]
  show ?thesis by simp
qed

section \<open>Termination\<close>

text \<open>
  On a first argument that is not negative, the recursion of \<^verbatim>\<open>extended_gcd\<close> reaches
  its base case within \<open>a + 1\<close> calls.
\<close>

lemma extended_gcd_fuel_enough:
  "0 \<le> a \<Longrightarrow> nat a < n \<Longrightarrow> extended_gcd_fuel n a b = Some (extended_gcd a b)"
proof (induction n arbitrary: a b)
  case 0
  then show ?case by simp
next
  case (Suc n)
  show ?case
  proof (cases "a = 0")
    case True
    then show ?thesis by (simp add: extended_gcd_zero)
  next
    case False
    with Suc.prems have pos: "0 < a" by simp
    then have r: "0 \<le> b mod a" "b mod a < a" by simp_all
    with Suc.prems have "nat (b mod a) < n" by linarith
    with Suc.IH [of "b mod a" a] r
    have "extended_gcd_fuel n (b mod a) a = Some (extended_gcd (b mod a) a)" by simp
    with False show ?thesis
      by (cases "extended_gcd (b mod a) a") (simp add: extended_gcd_step)
  qed
qed

text \<open>
  C10.  For every \<open>N > 1\<close> and exponents that are not negative, \<^verbatim>\<open>solve_for_primes\<close>
  terminates.  The recursive call of \<^verbatim>\<open>extended_gcd\<close> replaces the first argument
  \<open>a > 0\<close> by \<open>b mod a\<close>, which lies in \<open>[0, a)\<close>, so that \<open>a + 1\<close> calls are enough on
  arguments that are not negative; the four calls the solver makes, on \<open>2\<close>, \<open>5\<close>, \<open>3\<close>
  and \<open>7\<close>, need at most 8.  The solver itself has no loop: it ends with a pair or
  with \<^verbatim>\<open>(None, None)\<close>.
\<close>

theorem solve_for_primes_terminates:
  assumes "1 < N" and "0 \<le> e1" and "0 \<le> e2" and "0 \<le> a" and "0 \<le> b"
  shows "(a \<noteq> 0 \<longrightarrow> 0 \<le> b mod a \<and> b mod a < a)
     \<and> extended_gcd_fuel (Suc (nat a)) a b = Some (extended_gcd a b)
     \<and> (\<forall>k \<in> {2, 5, 3, 7}. extended_gcd_fuel 8 k N = Some (extended_gcd k N))
     \<and> (\<exists>r. solve_for_primes N e1 e2 c1 c2 = Inr r)"
proof (intro conjI)
  from assms(4) show "a \<noteq> 0 \<longrightarrow> 0 \<le> b mod a \<and> b mod a < a" by simp
  from assms(4) show "extended_gcd_fuel (Suc (nat a)) a b = Some (extended_gcd a b)"
    by (rule extended_gcd_fuel_enough) simp
  show "\<forall>k \<in> {2, 5, 3, 7}. extended_gcd_fuel 8 k N = Some (extended_gcd k N)"
    by (simp add: extended_gcd_fuel_enough)
  show "\<exists>r. solve_for_primes N e1 e2 c1 c2 = Inr r"
  proof (cases "primary_inverses N")
    case None
    then show ?thesis by (simp add: solve_for_primes_def)
  next
    case (Some r)
    obtain i1 i2 where r: "r = (i1, i2)" by (cases r) auto
    from primary_candidate_value [OF assms(1-3)] obtain cand c1p c2p
      where cand: "primary_candidate i1 i2 N e1 e2 c1 c2 = Inr (cand, c1p, c2p)" by blast
    from solve_after_candidate [OF Some [unfolded r] cand assms(2,3)] show ?thesis by simp
  qed
qed

theorem solve_for_primes_terminates_witness:
  "(1::int) < 143 \<and> (0::int) \<le> 3 \<and> (0::int) \<le> 12 \<and> (0::int) \<le> 46
     \<and> (0::int) \<le> 46 mod 12 \<and> (46::int) mod 12 < 12
     \<and> extended_gcd_fuel (Suc (nat 12)) 12 46 = Some (2, 4, - 1)
     \<and> extended_gcd 12 46 = (2, 4, - 1)
     \<and> extended_gcd_fuel 8 7 143 = Some (extended_gcd 7 143)
     \<and> solve_for_primes 143 3 2 ((2 * 11 + 3 * 13) ^ 3 mod 143) ((5 * 11 + 7 * 13) ^ 2 mod 143)
          = Inr (Some (11, 13))"
proof -
  have g: "extended_gcd 12 46 = (2, 4, - 1)" by code_simp
  have s: "solve_for_primes 143 3 2 ((2 * 11 + 3 * 13) ^ 3 mod 143) ((5 * 11 + 7 * 13) ^ 2 mod 143)
          = Inr (Some (11, 13))" by code_simp
  from solve_for_primes_terminates [of 143 3 2 12 46] g s show ?thesis by simp
qed

section \<open>Recovering the two primes\<close>

lemma is_prime_gt1: "is_prime p \<Longrightarrow> 1 < p"
  by (simp add: is_prime_def)

lemma is_prime_divisors:
  assumes "is_prime p" and "d dvd p" and "0 < d"
  shows "d = 1 \<or> d = p"
proof (rule ccontr)
  assume neg: "\<not> (d = 1 \<or> d = p)"
  from assms have "d \<le> p" by (simp add: zdvd_imp_le is_prime_def)
  with neg assms(3) have "d \<in> set [2..p - 1]" by simp
  with assms(1) have "\<not> d dvd p" by (simp add: is_prime_def)
  with assms(2) show False by simp
qed

lemma is_prime_coprime:
  assumes "is_prime p" and "\<not> p dvd a"
  shows "coprime p a"
proof -
  from assms(1) have "p \<noteq> 0" by (simp add: is_prime_def)
  then have "0 < gcd p a" by simp
  with is_prime_divisors [OF assms(1), of "gcd p a"] have "gcd p a = 1 \<or> gcd p a = p" by simp
  moreover have "gcd p a \<noteq> p"
  proof
    assume "gcd p a = p"
    then have "p dvd a" by (metis gcd_dvd2)
    with assms(2) show False by simp
  qed
  ultimately show ?thesis by (simp add: coprime_iff_gcd_eq_1)
qed

lemma distinct_primes_coprime:
  assumes "is_prime p" and "is_prime q" and "p \<noteq> q"
  shows "coprime p q"
proof (rule is_prime_coprime [OF assms(1)])
  show "\<not> p dvd q"
  proof
    assume "p dvd q"
    with is_prime_divisors [OF assms(2), of p] is_prime_gt1 [OF assms(1)] assms(3)
    show False by simp
  qed
qed

lemma power_mod_cong: "a mod r = b mod r \<Longrightarrow> a ^ n mod r = b ^ n mod r" for a b r :: int
  by (metis power_mod)

lemma unit_power_mod:
  fixes x r N :: int
  assumes "r dvd N" and "1 < r" and "x mod N = 1"
  shows "x ^ n mod r = 1 mod r"
proof -
  have "x mod r = (x mod N) mod r" using assms(1) by (simp add: mod_mod_cancel)
  also have "\<dots> = 1 mod r" using assms(3) by simp
  finally have "x ^ n mod r = 1 ^ n mod r" by (rule power_mod_cong)
  then show ?thesis by simp
qed

text \<open>
  After multiplication by \<open>10 ^ E\<close> the two inverses disappear modulo every divisor
  of \<open>N\<close>.
\<close>

lemma difference_mod_divisor:
  fixes N r i1 i2 U V :: int and E :: nat
  assumes r: "r dvd N" "1 < r" and i1: "(2 * i1) mod N = 1" and i2: "(5 * i2) mod N = 1"
  shows "(10 ^ E * (i2 ^ E * U ^ E - i1 ^ E * V ^ E)) mod r = ((2 * U) ^ E - (5 * V) ^ E) mod r"
proof -
  have ten: "(10::int) ^ E = 2 ^ E * 5 ^ E"
    by (simp add: power_mult_distrib [symmetric])
  have alg: "10 ^ E * (i2 ^ E * U ^ E - i1 ^ E * V ^ E)
      = (5 * i2) ^ E * (2 * U) ^ E - (2 * i1) ^ E * (5 * V) ^ E"
    unfolding ten by (simp add: power_mult_distrib algebra_simps)
  have a: "(5 * i2) ^ E mod r = 1 mod r" by (rule unit_power_mod [OF r i2])
  have b: "(2 * i1) ^ E mod r = 1 mod r" by (rule unit_power_mod [OF r i1])
  have "((5 * i2) ^ E * (2 * U) ^ E - (2 * i1) ^ E * (5 * V) ^ E) mod r
      = (1 * (2 * U) ^ E - 1 * (5 * V) ^ E) mod r"
    by (intro mod_diff_cong mod_mult_cong a b refl)
  with alg show ?thesis by simp
qed

lemma difference_divisible_q:
  fixes p q i1 i2 :: int and E :: nat
  assumes q: "1 < q" and c: "coprime q 10"
    and i1: "(2 * i1) mod (p * q) = 1" and i2: "(5 * i2) mod (p * q) = 1"
  shows "q dvd i2 ^ E * (5 * p + 7 * q) ^ E - i1 ^ E * (2 * p + 3 * q) ^ E"
proof -
  let ?D = "i2 ^ E * (5 * p + 7 * q) ^ E - i1 ^ E * (2 * p + 3 * q) ^ E"
  have "(2 * (5 * p + 7 * q)) mod q = (10 * p + q * 14) mod q" by (simp add: algebra_simps)
  also have "\<dots> = (10 * p) mod q" by (simp only: mod_mult_self2)
  finally have u: "(2 * (5 * p + 7 * q)) ^ E mod q = (10 * p) ^ E mod q" by (rule power_mod_cong)
  have "(5 * (2 * p + 3 * q)) mod q = (10 * p + q * 15) mod q" by (simp add: algebra_simps)
  also have "\<dots> = (10 * p) mod q" by (simp only: mod_mult_self2)
  finally have v: "(5 * (2 * p + 3 * q)) ^ E mod q = (10 * p) ^ E mod q" by (rule power_mod_cong)
  have "(10 ^ E * ?D) mod q = ((2 * (5 * p + 7 * q)) ^ E - (5 * (2 * p + 3 * q)) ^ E) mod q"
    by (rule difference_mod_divisor [OF _ q i1 i2]) simp
  also have "\<dots> = ((10 * p) ^ E - (10 * p) ^ E) mod q"
    by (intro mod_diff_cong u v)
  finally have "q dvd 10 ^ E * ?D" by (simp add: mod_eq_0_iff_dvd)
  moreover from c have "coprime q (10 ^ E)" by simp
  ultimately show ?thesis by (simp add: coprime_dvd_mult_right_iff)
qed

lemma difference_not_divisible_p:
  fixes p q i1 i2 :: int and E :: nat
  assumes p: "1 < p" and c: "coprime p 10" and pq: "coprime p q"
    and i1: "(2 * i1) mod (p * q) = 1" and i2: "(5 * i2) mod (p * q) = 1"
    and nd: "\<not> p dvd 14 ^ E - 15 ^ E"
  shows "\<not> p dvd i2 ^ E * (5 * p + 7 * q) ^ E - i1 ^ E * (2 * p + 3 * q) ^ E"
proof
  let ?D = "i2 ^ E * (5 * p + 7 * q) ^ E - i1 ^ E * (2 * p + 3 * q) ^ E"
  assume "p dvd ?D"
  then have d: "(10 ^ E * ?D) mod p = 0" by (simp add: mod_eq_0_iff_dvd)
  have "(2 * (5 * p + 7 * q)) mod p = (14 * q + p * 10) mod p" by (simp add: algebra_simps)
  also have "\<dots> = (14 * q) mod p" by (simp only: mod_mult_self2)
  finally have u: "(2 * (5 * p + 7 * q)) ^ E mod p = (14 * q) ^ E mod p" by (rule power_mod_cong)
  have "(5 * (2 * p + 3 * q)) mod p = (15 * q + p * 10) mod p" by (simp add: algebra_simps)
  also have "\<dots> = (15 * q) mod p" by (simp only: mod_mult_self2)
  finally have v: "(5 * (2 * p + 3 * q)) ^ E mod p = (15 * q) ^ E mod p" by (rule power_mod_cong)
  have "(10 ^ E * ?D) mod p = ((2 * (5 * p + 7 * q)) ^ E - (5 * (2 * p + 3 * q)) ^ E) mod p"
    by (rule difference_mod_divisor [OF _ p i1 i2]) simp
  also have "\<dots> = ((14 * q) ^ E - (15 * q) ^ E) mod p"
    by (intro mod_diff_cong u v)
  also have "(14 * q) ^ E - (15 * q) ^ E = q ^ E * (14 ^ E - 15 ^ E)"
    by (simp add: power_mult_distrib algebra_simps)
  finally have "p dvd q ^ E * (14 ^ E - 15 ^ E)" using d by (simp add: mod_eq_0_iff_dvd)
  moreover from pq have "coprime p (q ^ E)" by simp
  ultimately have "p dvd 14 ^ E - 15 ^ E" by (simp add: coprime_dvd_mult_right_iff)
  with nd show False by simp
qed

lemma gcd_isolates_q:
  fixes p q D :: int
  assumes p: "is_prime p" and q: "1 < q" and qd: "q dvd D" and pd: "\<not> p dvd D"
  shows "gcd (D mod (p * q)) (p * q) = q"
proof -
  have "gcd (D mod (p * q)) (p * q) = gcd D (p * q)"
    using gcd_red_int [of D "p * q"] by (simp add: gcd.commute)
  also from is_prime_coprime [OF p pd] have "coprime D p" by (simp add: coprime_commute)
  then have "gcd D (p * q) = gcd D q" by (rule gcd_mult_right_left_cancel)
  also from qd q have "gcd D q = q" by simp
  finally show ?thesis .
qed

text \<open>
  For a product of the exponents below \<open>N - 1\<close> the reduction of lines 69 and 72 changes
  nothing, and the candidate of line 87 is the greatest common divisor of \<open>N\<close> and
  \<open>i2 ^ E * (5 * p + 7 * q) ^ E - i1 ^ E * (2 * p + 3 * q) ^ E\<close>, where \<open>E = e1 * e2\<close> and
  \<open>i1\<close>, \<open>i2\<close> are the inverses of \<open>2\<close> and \<open>5\<close>.
\<close>

lemma primary_candidate_well_formed:
  fixes p q e1 e2 i1 i2 :: int
  assumes N: "1 < p * q" and e: "0 \<le> e1" "0 \<le> e2" and small: "e1 * e2 < p * q - 1"
  shows "\<exists>c1p c2p. primary_candidate i1 i2 (p * q) e1 e2
      ((2 * p + 3 * q) ^ nat e1 mod (p * q)) ((5 * p + 7 * q) ^ nat e2 mod (p * q))
    = Inr (gcd ((i2 ^ nat (e1 * e2) * (5 * p + 7 * q) ^ nat (e1 * e2)
                 - i1 ^ nat (e1 * e2) * (2 * p + 3 * q) ^ nat (e1 * e2)) mod (p * q)) (p * q),
           c1p, c2p)"
proof -
  let ?N = "p * q" and ?E = "nat (e1 * e2)"
  from e have E0: "0 \<le> e1 * e2" by simp
  with small have x: "(e1 * e2) mod (?N - 1) = e1 * e2" "(e2 * e1) mod (?N - 1) = e1 * e2"
    by (simp_all add: mult.commute)
  from e have E: "?E = nat e2 * nat e1" "?E = nat e1 * nat e2"
    by (simp_all add: nat_mult_distrib mult.commute)
  have t1: "(i2 ^ ?E mod ?N * (((5 * p + 7 * q) ^ nat e2 mod ?N) ^ nat e1 mod ?N)) mod ?N
      = (i2 ^ ?E * (5 * p + 7 * q) ^ ?E) mod ?N"
    unfolding E(1) by (simp add: mod_simps power_mult)
  have t2: "(i1 ^ ?E mod ?N * (((2 * p + 3 * q) ^ nat e1 mod ?N) ^ nat e2 mod ?N)) mod ?N
      = (i1 ^ ?E * (2 * p + 3 * q) ^ ?E) mod ?N"
    unfolding E(2) by (simp add: mod_simps power_mult)
  have "((i2 ^ ?E * (5 * p + 7 * q) ^ ?E) mod ?N - (i1 ^ ?E * (2 * p + 3 * q) ^ ?E) mod ?N) mod ?N
      = (i2 ^ ?E * (5 * p + 7 * q) ^ ?E - i1 ^ ?E * (2 * p + 3 * q) ^ ?E) mod ?N"
    by (simp only: mod_diff_eq)
  then show ?thesis
    unfolding primary_candidate_value [OF N e] x t1 t2 by simp
qed

text \<open>
  Where the method works: \<open>p\<close> and \<open>q\<close> distinct primes, each coprime to \<open>2\<close>, \<open>3\<close>, \<open>5\<close>
  and \<open>7\<close>, the product of the exponents below \<open>N - 1\<close>, and \<open>p\<close> not a divisor of
  \<open>14 ^ (e1 * e2) - 15 ^ (e1 * e2)\<close>.  Then the difference of line 87 is divisible by
  \<open>q\<close> and not by \<open>p\<close>, the candidate is \<open>q\<close>, and the first stage returns \<open>(p, q)\<close>.
\<close>

lemma solve_for_primes_recovers:
  assumes p: "is_prime p" and q: "is_prime q" and pq: "p \<noteq> q"
    and cop: "\<forall>k \<in> {2, 3, 5, 7}. coprime p k \<and> coprime q k"
    and e: "0 \<le> e1" "0 \<le> e2" and small: "e1 * e2 < p * q - 1"
    and nd: "\<not> p dvd 14 ^ nat (e1 * e2) - 15 ^ nat (e1 * e2)"
  shows "solve_for_primes (p * q) e1 e2
      ((2 * p + 3 * q) ^ nat e1 mod (p * q)) ((5 * p + 7 * q) ^ nat e2 mod (p * q))
    = Inr (Some (p, q))"
proof -
  let ?N = "p * q" and ?E = "nat (e1 * e2)"
  from p q have p1: "1 < p" and q1: "1 < q" by (simp_all add: is_prime_gt1)
  then have N: "1 < ?N" by (simp add: less_1_mult)
  from cop coprime_mult_right_iff [of p 2 5] coprime_mult_right_iff [of q 2 5]
  have c10: "coprime p 10" "coprime q 10" by simp_all
  from cop have g: "gcd 2 ?N = 1" "gcd 5 ?N = 1"
    by (simp_all add: coprime_commute)
  define i1 where "i1 = fst (snd (extended_gcd 2 ?N)) mod ?N"
  define i2 where "i2 = fst (snd (extended_gcd 5 ?N)) mod ?N"
  from g N have m: "mod_inverse 2 ?N = Inr i1" "mod_inverse 5 ?N = Inr i2"
    by (simp_all add: mod_inverse_nonneg i1_def i2_def)
  then have inv: "primary_inverses ?N = Some (i1, i2)"
    by (simp add: primary_inverses_def)
  from extended_gcd_inverse [OF _ N g(1)] extended_gcd_inverse [OF _ N g(2)]
  have i: "(2 * i1) mod ?N = 1" "(5 * i2) mod ?N = 1"
    by (simp_all add: i1_def i2_def)
  let ?D = "i2 ^ ?E * (5 * p + 7 * q) ^ ?E - i1 ^ ?E * (2 * p + 3 * q) ^ ?E"
  have qd: "q dvd ?D" by (rule difference_divisible_q [OF q1 c10(2) i])
  have pd: "\<not> p dvd ?D"
    by (rule difference_not_divisible_p [OF p1 c10(1) distinct_primes_coprime [OF p q pq] i nd])
  from primary_candidate_well_formed [OF N e small, of i1 i2] obtain c1p c2p
    where "primary_candidate i1 i2 ?N e1 e2
        ((2 * p + 3 * q) ^ nat e1 mod ?N) ((5 * p + 7 * q) ^ nat e2 mod ?N)
      = Inr (gcd (?D mod ?N) ?N, c1p, c2p)" by blast
  with gcd_isolates_q [OF p q1 qd pd]
  have cand: "primary_candidate i1 i2 ?N e1 e2
        ((2 * p + 3 * q) ^ nat e1 mod ?N) ((5 * p + 7 * q) ^ nat e2 mod ?N)
      = Inr (q, c1p, c2p)" by simp
  from solve_after_candidate [OF inv cand e] q1 show ?thesis by simp
qed

lemma solve_for_primes_recovers_example:
  "(11::int) \<noteq> 13 \<and> (0::int) \<le> 3 \<and> (0::int) \<le> 2 \<and> (3::int) * 2 < 11 * 13 - 1
     \<and> \<not> (11::int) dvd 14 ^ nat (3 * 2) - 15 ^ nat (3 * 2)
     \<and> solve_for_primes (11 * 13) 3 2
          ((2 * 11 + 3 * 13) ^ nat 3 mod (11 * 13)) ((5 * 11 + 7 * 13) ^ nat 2 mod (11 * 13))
        = Inr (Some (11, 13))"
proof -
  have h: "is_prime 11" "is_prime 13" "\<forall>k \<in> {2, 3, 5, 7}. coprime (11::int) k \<and> coprime (13::int) k"
    by code_simp+
  have n: "\<not> (11::int) dvd 14 ^ nat (3 * 2) - 15 ^ nat (3 * 2)" by simp
  have "solve_for_primes (11 * 13) 3 2
          ((2 * 11 + 3 * 13) ^ nat 3 mod (11 * 13)) ((5 * 11 + 7 * 13) ^ nat 2 mod (11 * 13))
        = Inr (Some (11, 13))"
    by (rule solve_for_primes_recovers [OF h(1,2) _ h(3) _ _ _ n]) simp_all
  with n show ?thesis by simp
qed

text \<open>
  C1.  The claim is that for every \<open>N = p * q\<close> with \<open>p\<close> and \<open>q\<close> prime and coprime to
  \<open>2\<close>, \<open>3\<close>, \<open>5\<close> and \<open>7\<close>, and ciphertexts built by the defining equations,
  \<^verbatim>\<open>solve_for_primes\<close> returns \<open>(p, q)\<close> or \<open>(q, p)\<close>.  On two such inputs with \<open>p = 11\<close>
  and \<open>q = 13\<close> the function returns \<open>(1, 143)\<close>.

  For \<open>e1 = 5\<close>, \<open>e2 = 1\<close> the candidate of line 87 is \<open>N\<close> itself; line 90 does not test
  \<open>q_candidate < N\<close> and accepts it.  The stage of lines 128 to 148, run on the powers
  of lines 75 and 78, finds \<open>(11, 13)\<close>, but it is never reached.

  For \<open>e1 = 11\<close>, \<open>e2 = 13\<close> the product \<open>143\<close> is reduced modulo \<open>N - 1 = 142\<close> to \<open>1\<close>
  in lines 69 and 72, so that the two powers are not the \<open>a2 ^ (- e2 * e1)\<close> and
  \<open>a1 ^ (- e1 * e2)\<close> modulo \<open>N\<close> that the comments of lines 66 to 72 announce; the
  candidate is \<open>1\<close> and the swap of lines 115 to 123 returns \<open>(1, 143)\<close>.  With the
  powers of the comment, \<^verbatim>\<open>pow(5, -143, 143)\<close> and \<^verbatim>\<open>pow(2, -143, 143)\<close>, the
  greatest common divisor is \<open>13\<close>.
\<close>

theorem solve_for_primes_misses_factors:
  "solve_for_primes (11 * 13) 5 1
       ((2 * 11 + 3 * 13) ^ 5 mod (11 * 13)) ((5 * 11 + 7 * 13) ^ 1 mod (11 * 13))
     = Inr (Some (1, 143))
   \<and> primary_candidate 72 86 143 5 1 120 3 = Inr (143, 120, 100)
   \<and> alternate_stage 143 5 1 120 100 = Some (11, 13)
   \<and> solve_for_primes (11 * 13) 11 13
       ((2 * 11 + 3 * 13) ^ 11 mod (11 * 13)) ((5 * 11 + 7 * 13) ^ 13 mod (11 * 13))
     = Inr (Some (1, 143))
   \<and> primary_candidate 72 86 143 11 13 94 16 = Inr (1, 29, 126)
   \<and> py_pow 5 (- (13 * 11)) 143 = Inr 135 \<and> py_pow 2 (- (11 * 13)) 143 = Inr 106
   \<and> gcd ((135 * 126 mod 143 - 106 * 29 mod 143) mod 143) (143::int) = 13"
  by code_simp

end
